theory Spec2Isabelle
  imports Complex_Main
begin

section \<open>Data model of matrix.c\<close>

text \<open>
  A \<^verbatim>\<open>double\<close> is idealised as a \<^typ>\<open>real\<close>: arithmetic is exact and there
  is neither NaN nor infinity. \<^verbatim>\<open>size_t\<close> is \<^typ>\<open>nat\<close>: a matrix that exists
  in memory has \<open>rows * cols\<close> cells, so the index arithmetic of the source does not
  wrap. \<^verbatim>\<open>malloc\<close> and \<^verbatim>\<open>calloc\<close> are taken to succeed. A pointer
  argument \<^verbatim>\<open>const Matrix *\<close> is a \<^typ>\<open>'a option\<close>, \<open>None\<close> being
  \<^verbatim>\<open>NULL\<close>; a returned \<^verbatim>\<open>Matrix *\<close> likewise.
\<close>

definition EPS :: real where
  "EPS = 1 / 10 ^ 12"

record Matrix =
  rows :: nat
  cols :: nat
  data :: "real list"


definition matrix_create :: "nat \<Rightarrow> nat \<Rightarrow> Matrix" where
  "matrix_create r c = \<lparr>rows = r, cols = c, data = replicate (r * c) 0\<rparr>"

definition matrix_get :: "Matrix \<Rightarrow> nat \<Rightarrow> nat \<Rightarrow> real" where
  "matrix_get m i j = data m ! (i * cols m + j)"


section \<open>Loops\<close>

text \<open>
  \<^verbatim>\<open>for (size_t i = lo; i < hi; ++i) body\<close>, where the body neither changes \<open>i\<close>
  nor leaves the loop, runs the body on \<open>lo, lo + 1, ..., hi - 1\<close> in this order.
\<close>

definition for_loop :: "nat \<Rightarrow> nat \<Rightarrow> (nat \<Rightarrow> 's \<Rightarrow> 's) \<Rightarrow> 's \<Rightarrow> 's" where
  "for_loop lo hi body s = fold body [lo..<hi] s"

text \<open>
  A loop whose body may leave it (\<^verbatim>\<open>break\<close>, \<^verbatim>\<open>return\<close>): the body answers
  \<open>Next\<close> to go on and \<open>Stop\<close> to leave; after a \<open>Stop\<close> no further body runs.
\<close>

datatype 's ctl = Next 's | Stop 's

definition for_ctl :: "nat \<Rightarrow> nat \<Rightarrow> (nat \<Rightarrow> 's \<Rightarrow> 's ctl) \<Rightarrow> 's \<Rightarrow> 's ctl" where
  "for_ctl lo hi body s =
     fold (\<lambda>i c. case c of Next t \<Rightarrow> body i t | Stop t \<Rightarrow> Stop t) [lo..<hi] (Next s)"

section \<open>Elementwise operations\<close>

text \<open>\<^verbatim>\<open>matrix_add_sub\<close>; \<open>subtract\<close> is a C \<^verbatim>\<open>int\<close>, true when non-zero.\<close>

definition matrix_add_sub :: "Matrix option \<Rightarrow> Matrix option \<Rightarrow> int \<Rightarrow> Matrix option" where
  "matrix_add_sub a b subtract =
     (case a of None \<Rightarrow> None | Some a \<Rightarrow>
      case b of None \<Rightarrow> None | Some b \<Rightarrow>
        if rows a \<noteq> rows b \<or> cols a \<noteq> cols b then None
        else
          let c = matrix_create (rows a) (cols a)
          in Some (for_loop 0 (rows a * cols a)
                (\<lambda>i c. c\<lparr>data := (data c)[i := data a ! i +
                          (if subtract \<noteq> 0 then - (data b ! i) else data b ! i)]\<rparr>) c))"

definition matrix_multiply :: "Matrix option \<Rightarrow> Matrix option \<Rightarrow> Matrix option" where
  "matrix_multiply a b =
     (case a of None \<Rightarrow> None | Some a \<Rightarrow>
      case b of None \<Rightarrow> None | Some b \<Rightarrow>
        if cols a \<noteq> rows b then None
        else
          let c = matrix_create (rows a) (cols b)
          in Some (for_loop 0 (rows a) (\<lambda>i c.
                for_loop 0 (cols a) (\<lambda>k c.
                  let aik = matrix_get a i k
                  in for_loop 0 (cols b) (\<lambda>j c.
                       c\<lparr>data := (data c)[i * cols c + j :=
                            data c ! (i * cols c + j) + aik * matrix_get b k j]\<rparr>) c) c) c))"


section \<open>Row operations shared by determinant and inverse\<close>

text \<open>
  Both routines work on a flat buffer of rows of width \<open>w\<close> (\<open>n\<close> for the determinant,
  \<open>2 * n\<close> for the augmented buffer of the inverse) and spell out the same two loops:
  the search of the pivot row of column \<open>i\<close> among the rows \<open>i, ..., n - 1\<close>, and the
  exchange of two rows.
\<close>

definition find_pivot :: "real list \<Rightarrow> nat \<Rightarrow> nat \<Rightarrow> nat \<Rightarrow> nat" where
  "find_pivot xs w n i =
     for_loop i n (\<lambda>r piv. if \<bar>xs ! (r * w + i)\<bar> > \<bar>xs ! (piv * w + i)\<bar> then r else piv) i"

definition swap_rows :: "real list \<Rightarrow> nat \<Rightarrow> nat \<Rightarrow> nat \<Rightarrow> real list" where
  "swap_rows xs w i piv =
     for_loop 0 w (\<lambda>c ys.
       let tmp = ys ! (i * w + c);
           ys1 = ys[i * w + c := ys ! (piv * w + c)]
       in ys1[piv * w + c := tmp]) xs"

section \<open>Determinant\<close>

definition det_eliminate :: "real list \<Rightarrow> nat \<Rightarrow> nat \<Rightarrow> real \<Rightarrow> real list" where
  "det_eliminate mat n i pivot =
     for_loop (i + 1) n (\<lambda>r m.
       let factor = m ! (r * n + i) / pivot
       in for_loop i n (\<lambda>c m. m[r * n + c := m ! (r * n + c) - factor * m ! (i * n + c)]) m) mat"

text \<open>The state of the outer loop: the working copy, \<open>det\<close> and \<open>sign\<close>.\<close>

type_synonym det_state = "real list \<times> real \<times> int"

definition det_step :: "nat \<Rightarrow> nat \<Rightarrow> det_state \<Rightarrow> det_state ctl" where
  "det_step n i s =
     (case s of (mat, det, sign) \<Rightarrow>
        let piv = find_pivot mat n n i
        in if \<bar>mat ! (piv * n + i)\<bar> < EPS then Stop (mat, 0, sign)
           else
             let (mat1, sign1) = (if piv \<noteq> i then (swap_rows mat n i piv, - sign) else (mat, sign));
                 pivot = mat1 ! (i * n + i);
                 det1 = det * pivot
             in Next (det_eliminate mat1 n i pivot, det1, sign1))"

text \<open>
  The result is the returned \<^verbatim>\<open>double\<close> together with the lines printed on
  \<^verbatim>\<open>stderr\<close>.
\<close>

definition matrix_determinant :: "Matrix option \<Rightarrow> real \<times> string list" where
  "matrix_determinant a =
     (case a of None \<Rightarrow> (0, []) | Some a \<Rightarrow>
        if rows a \<noteq> cols a then (0, [''Determinant: matrix is not square''])
        else
          let n = rows a;
              mat = take (n * n) (data a);
              fin = (case for_ctl 0 n (det_step n) (mat, 1, 1) of Next t \<Rightarrow> t | Stop t \<Rightarrow> t)
          in (case fin of (mat', det, sign) \<Rightarrow> (det * of_int sign, [])))"

section \<open>Inverse\<close>

text \<open>
  The augmented buffer comes from \<^verbatim>\<open>malloc\<close>; its cells are modelled as zero until
  written, and the fill loop writes every one of them.
\<close>

definition inverse_fill :: "Matrix \<Rightarrow> nat \<Rightarrow> real list" where
  "inverse_fill a n =
     for_loop 0 n (\<lambda>i E.
       for_loop 0 n (\<lambda>j E.
         let E1 = E[i * (2 * n) + j := matrix_get a i j]
         in E1[i * (2 * n) + (n + j) := (if i = j then 1 else 0)]) E) (replicate (n * 2 * n) 0)"

definition normalize_row :: "real list \<Rightarrow> nat \<Rightarrow> nat \<Rightarrow> real list" where
  "normalize_row E n i =
     (let div_i = E ! (i * (2 * n) + i)
      in for_loop 0 (2 * n) (\<lambda>c E. E[i * (2 * n) + c := E ! (i * (2 * n) + c) / div_i]) E)"

definition inverse_eliminate :: "real list \<Rightarrow> nat \<Rightarrow> nat \<Rightarrow> real list" where
  "inverse_eliminate E n i =
     for_loop 0 n (\<lambda>r E.
       if r = i then E
       else
         let factor = E ! (r * (2 * n) + i)
         in if \<bar>factor\<bar> < EPS then E
            else for_loop 0 (2 * n) (\<lambda>c E.
                   E[r * (2 * n) + c := E ! (r * (2 * n) + c) - factor * E ! (i * (2 * n) + c)]) E) E"

definition inverse_step :: "nat \<Rightarrow> nat \<Rightarrow> real list \<Rightarrow> real list ctl" where
  "inverse_step n i E =
     (let piv = find_pivot E (2 * n) n i
      in if \<bar>E ! (piv * (2 * n) + i)\<bar> < EPS then Stop E
         else
           let E1 = (if piv \<noteq> i then swap_rows E (2 * n) i piv else E);
               E2 = normalize_row E1 n i
           in Next (inverse_eliminate E2 n i))"

definition inverse_extract :: "real list \<Rightarrow> nat \<Rightarrow> Matrix" where
  "inverse_extract E n =
     for_loop 0 n (\<lambda>i inv.
       for_loop 0 n (\<lambda>j inv.
         inv\<lparr>data := (data inv)[i * n + j := E ! (i * (2 * n) + (n + j))]\<rparr>) inv) (matrix_create n n)"

definition matrix_inverse :: "Matrix option \<Rightarrow> Matrix option \<times> string list" where
  "matrix_inverse a =
     (case a of None \<Rightarrow> (None, []) | Some a \<Rightarrow>
        if rows a \<noteq> cols a then (None, [''Inverse: matrix is not square''])
        else
          let n = rows a
          in case for_ctl 0 n (inverse_step n) (inverse_fill a n) of
               Stop E \<Rightarrow> (None, [])
             | Next E \<Rightarrow> (Some (inverse_extract E n), []))"

section \<open>Determinant and inverse on an explicit memory\<close>

text \<open>
  To say what the two routines leave unchanged, the same code is modelled once more with
  the memory made explicit. A \<^verbatim>\<open>Matrix\<close> struct lives at an address and holds the
  address of its block of cells; every \<open>x[k] = v\<close> of the source is a write \<open>wr\<close> to a
  block, every \<open>x[k]\<close> a read \<open>rd\<close>. \<^verbatim>\<open>malloc\<close> hands out the next unused address
  \<open>brk\<close>, \<^verbatim>\<open>free\<close> removes the block. A pointer that is not \<^verbatim>\<open>NULL\<close> is taken
  to point to a struct.
\<close>

record Matrix_struct =
  s_rows :: nat
  s_cols :: nat
  s_data :: nat

record memory =
  structs :: "nat \<Rightarrow> Matrix_struct option"
  blocks :: "nat \<Rightarrow> real list option"
  brk :: nat

definition rd :: "memory \<Rightarrow> nat \<Rightarrow> nat \<Rightarrow> real" where
  "rd \<mu> q k = the (blocks \<mu> q) ! k"

definition wr :: "memory \<Rightarrow> nat \<Rightarrow> nat \<Rightarrow> real \<Rightarrow> memory" where
  "wr \<mu> q k v = \<mu>\<lparr>blocks := (blocks \<mu>)(q \<mapsto> (the (blocks \<mu> q))[k := v])\<rparr>"

definition malloc :: "memory \<Rightarrow> nat \<Rightarrow> nat \<times> memory" where
  "malloc \<mu> k = (brk \<mu>, \<mu>\<lparr>blocks := (blocks \<mu>)(brk \<mu> \<mapsto> replicate k 0), brk := Suc (brk \<mu>)\<rparr>)"

definition free :: "memory \<Rightarrow> nat \<Rightarrow> memory" where
  "free \<mu> q = \<mu>\<lparr>blocks := (blocks \<mu>)(q := None)\<rparr>"

definition memcpy :: "memory \<Rightarrow> nat \<Rightarrow> nat \<Rightarrow> nat \<Rightarrow> memory" where
  "memcpy \<mu> dst src k =
     \<mu>\<lparr>blocks := (blocks \<mu>)(dst \<mapsto> take k (the (blocks \<mu> src)) @ drop k (the (blocks \<mu> dst)))\<rparr>"

definition matrix_create_mem :: "memory \<Rightarrow> nat \<Rightarrow> nat \<Rightarrow> nat \<times> memory" where
  "matrix_create_mem \<mu> r c =
     (let m = brk \<mu>; d = Suc (brk \<mu>)
      in (m, \<mu>\<lparr>structs := (structs \<mu>)(m \<mapsto> \<lparr>s_rows = r, s_cols = c, s_data = d\<rparr>),
               blocks := (blocks \<mu>)(d \<mapsto> replicate (r * c) 0),
               brk := Suc (Suc (brk \<mu>))\<rparr>))"

definition matrix_get_mem :: "memory \<Rightarrow> nat \<Rightarrow> nat \<Rightarrow> nat \<Rightarrow> real" where
  "matrix_get_mem \<mu> m i j =
     (let s = the (structs \<mu> m) in rd \<mu> (s_data s) (i * s_cols s + j))"

definition find_pivot_mem :: "memory \<Rightarrow> nat \<Rightarrow> nat \<Rightarrow> nat \<Rightarrow> nat \<Rightarrow> nat" where
  "find_pivot_mem \<mu> q w n i =
     for_loop i n (\<lambda>r piv. if \<bar>rd \<mu> q (r * w + i)\<bar> > \<bar>rd \<mu> q (piv * w + i)\<bar> then r else piv) i"

definition swap_rows_mem :: "memory \<Rightarrow> nat \<Rightarrow> nat \<Rightarrow> nat \<Rightarrow> nat \<Rightarrow> memory" where
  "swap_rows_mem \<mu> q w i piv =
     for_loop 0 w (\<lambda>c \<mu>.
       let tmp = rd \<mu> q (i * w + c);
           \<mu>1 = wr \<mu> q (i * w + c) (rd \<mu> q (piv * w + c))
       in wr \<mu>1 q (piv * w + c) tmp) \<mu>"

definition det_eliminate_mem :: "memory \<Rightarrow> nat \<Rightarrow> nat \<Rightarrow> nat \<Rightarrow> real \<Rightarrow> memory" where
  "det_eliminate_mem \<mu> q n i pivot =
     for_loop (i + 1) n (\<lambda>r \<mu>.
       let factor = rd \<mu> q (r * n + i) / pivot
       in for_loop i n (\<lambda>c \<mu>.
            wr \<mu> q (r * n + c) (rd \<mu> q (r * n + c) - factor * rd \<mu> q (i * n + c))) \<mu>) \<mu>"

definition det_step_mem :: "nat \<Rightarrow> nat \<Rightarrow> nat \<Rightarrow> memory \<times> real \<times> int \<Rightarrow> (memory \<times> real \<times> int) ctl" where
  "det_step_mem q n i s =
     (case s of (\<mu>, det, sign) \<Rightarrow>
        let piv = find_pivot_mem \<mu> q n n i
        in if \<bar>rd \<mu> q (piv * n + i)\<bar> < EPS then Stop (\<mu>, 0, sign)
           else
             let (\<mu>1, sign1) = (if piv \<noteq> i then (swap_rows_mem \<mu> q n i piv, - sign) else (\<mu>, sign));
                 pivot = rd \<mu>1 q (i * n + i);
                 det1 = det * pivot
             in Next (det_eliminate_mem \<mu>1 q n i pivot, det1, sign1))"

definition matrix_determinant_mem :: "memory \<Rightarrow> nat option \<Rightarrow> (real \<times> string list) \<times> memory" where
  "matrix_determinant_mem \<mu> a =
     (case a of None \<Rightarrow> ((0, []), \<mu>) | Some a \<Rightarrow>
        let s = the (structs \<mu> a)
        in if s_rows s \<noteq> s_cols s then ((0, [''Determinant: matrix is not square'']), \<mu>)
           else
             let n = s_rows s;
                 (mat, \<mu>1) = malloc \<mu> (n * n);
                 \<mu>2 = memcpy \<mu>1 mat (s_data s) (n * n);
                 fin = (case for_ctl 0 n (det_step_mem mat n) (\<mu>2, 1, 1) of Next t \<Rightarrow> t | Stop t \<Rightarrow> t)
             in (case fin of (\<mu>3, det, sign) \<Rightarrow> ((det * of_int sign, []), free \<mu>3 mat)))"

definition inverse_fill_mem :: "memory \<Rightarrow> nat \<Rightarrow> nat \<Rightarrow> nat \<Rightarrow> memory" where
  "inverse_fill_mem \<mu> a E n =
     for_loop 0 n (\<lambda>i \<mu>.
       for_loop 0 n (\<lambda>j \<mu>.
         let \<mu>1 = wr \<mu> E (i * (2 * n) + j) (matrix_get_mem \<mu> a i j)
         in wr \<mu>1 E (i * (2 * n) + (n + j)) (if i = j then 1 else 0)) \<mu>) \<mu>"

definition normalize_row_mem :: "memory \<Rightarrow> nat \<Rightarrow> nat \<Rightarrow> nat \<Rightarrow> memory" where
  "normalize_row_mem \<mu> E n i =
     (let div_i = rd \<mu> E (i * (2 * n) + i)
      in for_loop 0 (2 * n) (\<lambda>c \<mu>. wr \<mu> E (i * (2 * n) + c) (rd \<mu> E (i * (2 * n) + c) / div_i)) \<mu>)"

definition inverse_eliminate_mem :: "memory \<Rightarrow> nat \<Rightarrow> nat \<Rightarrow> nat \<Rightarrow> memory" where
  "inverse_eliminate_mem \<mu> E n i =
     for_loop 0 n (\<lambda>r \<mu>.
       if r = i then \<mu>
       else
         let factor = rd \<mu> E (r * (2 * n) + i)
         in if \<bar>factor\<bar> < EPS then \<mu>
            else for_loop 0 (2 * n) (\<lambda>c \<mu>.
                   wr \<mu> E (r * (2 * n) + c)
                     (rd \<mu> E (r * (2 * n) + c) - factor * rd \<mu> E (i * (2 * n) + c))) \<mu>) \<mu>"

definition inverse_step_mem :: "nat \<Rightarrow> nat \<Rightarrow> nat \<Rightarrow> memory \<Rightarrow> memory ctl" where
  "inverse_step_mem E n i \<mu> =
     (let piv = find_pivot_mem \<mu> E (2 * n) n i
      in if \<bar>rd \<mu> E (piv * (2 * n) + i)\<bar> < EPS then Stop \<mu>
         else
           let \<mu>1 = (if piv \<noteq> i then swap_rows_mem \<mu> E (2 * n) i piv else \<mu>);
               \<mu>2 = normalize_row_mem \<mu>1 E n i
           in Next (inverse_eliminate_mem \<mu>2 E n i))"

definition inverse_extract_mem :: "memory \<Rightarrow> nat \<Rightarrow> nat \<Rightarrow> nat \<Rightarrow> memory" where
  "inverse_extract_mem \<mu> E ainv n =
     for_loop 0 n (\<lambda>i \<mu>.
       for_loop 0 n (\<lambda>j \<mu>.
         wr \<mu> (s_data (the (structs \<mu> ainv))) (i * n + j) (rd \<mu> E (i * (2 * n) + (n + j)))) \<mu>) \<mu>"

definition matrix_inverse_mem :: "memory \<Rightarrow> nat option \<Rightarrow> (nat option \<times> string list) \<times> memory" where
  "matrix_inverse_mem \<mu> a =
     (case a of None \<Rightarrow> ((None, []), \<mu>) | Some a \<Rightarrow>
        let s = the (structs \<mu> a)
        in if s_rows s \<noteq> s_cols s then ((None, [''Inverse: matrix is not square'']), \<mu>)
           else
             let n = s_rows s;
                 (E, \<mu>1) = malloc \<mu> (n * 2 * n);
                 \<mu>2 = inverse_fill_mem \<mu>1 a E n
             in case for_ctl 0 n (inverse_step_mem E n) \<mu>2 of
                  Stop \<mu>3 \<Rightarrow> ((None, []), free \<mu>3 E)
                | Next \<mu>3 \<Rightarrow>
                    let (ainv, \<mu>4) = matrix_create_mem \<mu>3 n n;
                        \<mu>5 = inverse_extract_mem \<mu>4 E ainv n
                    in ((Some ainv, []), free \<mu>5 E))"

text \<open>The memory with the block at \<open>q\<close> replaced by \<open>f\<close> of its content.\<close>

definition on_block :: "memory \<Rightarrow> nat \<Rightarrow> (real list \<Rightarrow> real list) \<Rightarrow> memory" where
  "on_block \<mu> q f = \<mu>\<lparr>blocks := (blocks \<mu>)(q \<mapsto> f (the (blocks \<mu> q)))\<rparr>"

text \<open>The matrix value that the struct at address \<open>a\<close> denotes.\<close>

definition matrix_at :: "memory \<Rightarrow> nat \<Rightarrow> Matrix" where
  "matrix_at \<mu> a =
     (let s = the (structs \<mu> a)
      in \<lparr>rows = s_rows s, cols = s_cols s, data = the (blocks \<mu> (s_data s))\<rparr>)"

section \<open>Saving and loading\<close>









section \<open>Reference values used in the statements\<close>

text \<open>The identity matrix of order \<open>n\<close> as a value of the struct, row-major.\<close>

definition identity_matrix :: "nat \<Rightarrow> Matrix" where
  "identity_matrix n =
     \<lparr>rows = n, cols = n, data = map (\<lambda>k. if k div n = k mod n then 1 else 0) [0..<n * n]\<rparr>"












section \<open>The determinant of linear algebra\<close>








section \<open>Facts about the loops\<close>

lemma for_loop_empty: "hi \<le> lo \<Longrightarrow> for_loop lo hi body s = s"
  by (simp add: for_loop_def)

lemma for_loop_Suc: "lo \<le> hi \<Longrightarrow> for_loop lo (Suc hi) body s = body hi (for_loop lo hi body s)"
  by (simp add: for_loop_def)

lemma for_loop_first: "lo < hi \<Longrightarrow> for_loop lo hi body s = for_loop (Suc lo) hi body (body lo s)"
  by (simp add: for_loop_def upt_conv_Cons)

lemma for_loop_inv:
  assumes "P lo s" and "lo \<le> hi"
    and "\<And>i t. lo \<le> i \<Longrightarrow> i < hi \<Longrightarrow> P i t \<Longrightarrow> P (Suc i) (body i t)"
  shows "P hi (for_loop lo hi body s)"
  using assms(2,3)
proof (induction hi)
  case 0
  then show ?case using assms(1) by (simp add: for_loop_empty)
next
  case (Suc hi)
  show ?case
  proof (cases "lo \<le> hi")
    case True
    then have "P hi (for_loop lo hi body s)" using Suc by simp
    then show ?thesis using True Suc.prems(2) by (simp add: for_loop_Suc)
  next
    case False
    then have "lo = Suc hi" using Suc.prems(1) by simp
    then show ?thesis using assms(1) by (simp add: for_loop_empty)
  qed
qed

lemma ctl_stop_fold:
  "fold (\<lambda>i c. case c of Next t \<Rightarrow> body i t | Stop t \<Rightarrow> Stop t) xs (Stop t) = Stop t"
  by (induction xs) simp_all

lemma for_ctl_empty: "hi \<le> lo \<Longrightarrow> for_ctl lo hi body s = Next s"
  by (simp add: for_ctl_def)

lemma for_ctl_Suc:
  "lo \<le> hi \<Longrightarrow> for_ctl lo (Suc hi) body s =
     (case for_ctl lo hi body s of Next t \<Rightarrow> body hi t | Stop t \<Rightarrow> Stop t)"
  by (simp add: for_ctl_def)


lemma for_ctl_split:
  "lo \<le> mid \<Longrightarrow> mid \<le> hi \<Longrightarrow> for_ctl lo hi body s =
     (case for_ctl lo mid body s of Next t \<Rightarrow> for_ctl mid hi body t | Stop t \<Rightarrow> Stop t)"
proof -
  assume a: "lo \<le> mid" "mid \<le> hi"
  then have "[lo..<hi] = [lo..<mid] @ [mid..<hi]"
    by (metis le_Suc_ex upt_add_eq_append)
  then show ?thesis
    by (simp add: for_ctl_def ctl_stop_fold split: ctl.splits)
qed

lemma argmax_loop:
  fixes v :: "nat \<Rightarrow> 'a::linorder"
  assumes "i < n"
  defines "p \<equiv> for_loop i n (\<lambda>r piv. if v r > v piv then r else piv) i"
  shows "i \<le> p \<and> p < n \<and> (\<forall>r. i \<le> r \<and> r < n \<longrightarrow> v r \<le> v p) \<and> (\<forall>r. i \<le> r \<and> r < p \<longrightarrow> v r < v p)"
proof -
  let ?P = "\<lambda>r piv. i \<le> piv \<and> (piv < r \<or> piv = i) \<and> (\<forall>r'. i \<le> r' \<and> r' < r \<longrightarrow> v r' \<le> v piv)
              \<and> (\<forall>r'. i \<le> r' \<and> r' < piv \<longrightarrow> v r' < v piv)"
  have "?P n (for_loop i n (\<lambda>r piv. if v r > v piv then r else piv) i)"
  proof (rule for_loop_inv [where P = ?P])
    show "?P i i" by auto
    show "i \<le> n" using assms(1) by simp
  next
    fix r t
    assume r: "i \<le> r" "r < n" and t: "?P r t"
    from t have t1: "i \<le> t" and t2: "t < r \<or> t = i"
      and t3: "\<And>r'. i \<le> r' \<Longrightarrow> r' < r \<Longrightarrow> v r' \<le> v t"
      and t4: "\<And>r'. i \<le> r' \<Longrightarrow> r' < t \<Longrightarrow> v r' < v t" by blast+
    show "?P (Suc r) (if v r > v t then r else t)"
    proof (cases "v r > v t")
      case True
      have a: "v r' \<le> v r" if "i \<le> r'" "r' < Suc r" for r'
      proof (cases "r' = r")
        case True then show ?thesis by simp
      next
        case False
        then have "r' < r" using that by simp
        then have "v r' \<le> v t" using t3 that by blast
        then show ?thesis using True by simp
      qed
      have b: "v r' < v r" if "i \<le> r'" "r' < r" for r'
        using t3 [OF that] True by simp
      show ?thesis using True r a b by simp
    next
      case False
      have a: "v r' \<le> v t" if "i \<le> r'" "r' < Suc r" for r'
      proof (cases "r' = r")
        case True then show ?thesis using False by simp
      next
        case False
        then have "r' < r" using that by simp
        then show ?thesis using t3 that by blast
      qed
      have c: "t < Suc r \<or> t = i" using t2 by auto
      show ?thesis using False t1 c a t4 by simp
    qed
  qed
  then have P: "?P n p" by (simp add: p_def)
  have "p < n" using P assms(1) by auto
  then show ?thesis using P by blast
qed

lemma find_pivot_spec:
  assumes "i < n"
  shows "i \<le> find_pivot xs w n i" and "find_pivot xs w n i < n"
    and "\<And>r. i \<le> r \<Longrightarrow> r < n \<Longrightarrow> \<bar>xs ! (r * w + i)\<bar> \<le> \<bar>xs ! (find_pivot xs w n i * w + i)\<bar>"
    and "\<And>r. i \<le> r \<Longrightarrow> r < find_pivot xs w n i \<Longrightarrow> \<bar>xs ! (r * w + i)\<bar> < \<bar>xs ! (find_pivot xs w n i * w + i)\<bar>"
  using argmax_loop [OF assms, of "\<lambda>r. \<bar>xs ! (r * w + i)\<bar>"]
  unfolding find_pivot_def by blast+

lemma flat_index_less: "i < r \<Longrightarrow> j < c \<Longrightarrow> i * c + j < r * (c::nat)"
proof -
  assume a: "i < r" "j < c"
  then have "i * c + j < i * c + c" by simp
  also have "\<dots> = Suc i * c" by simp
  also have "\<dots> \<le> r * c" using a(1) by (intro mult_le_mono1) simp
  finally show ?thesis .
qed

lemma flat_index_eq:
  "j < c \<Longrightarrow> j' < c \<Longrightarrow> (i * c + j = i' * c + j') = (i = i' \<and> j = (j'::nat))"
proof
  assume a: "j < c" "j' < c" and e: "i * c + j = i' * c + j'"
  have "(i * c + j) div c = i" "(i' * c + j') div c = i'" using a by simp_all
  then have "i = i'" using e by simp
  then show "i = i' \<and> j = j'" using e by simp
qed simp


section \<open>Entries of the buffers after each loop\<close>

lemma flat_ext:
  assumes "length xs = n * w" "length ys = n * w"
    and "\<And>r c. r < n \<Longrightarrow> c < w \<Longrightarrow> xs ! (r * w + c) = ys ! (r * w + c)"
  shows "xs = ys"
proof (rule nth_equalityI)
  show "length xs = length ys" using assms by simp
next
  fix k assume k: "k < length xs"
  then have w: "0 < w" using assms(1) by (cases w) auto
  have "k div w < n" using k assms(1) w by (simp add: less_mult_imp_div_less)
  moreover have "k mod w < w" using w by simp
  ultimately have "xs ! (k div w * w + k mod w) = ys ! (k div w * w + k mod w)"
    by (rule assms(3))
  then show "xs ! k = ys ! k" by simp
qed

lemma row_write_loop:
  fixes G :: "nat \<Rightarrow> 'a list \<Rightarrow> 'a"
  assumes len: "length xs = n * w" and r0: "r0 < n" and hi: "hi \<le> w"
    and loc: "\<And>c ys. lo \<le> c \<Longrightarrow> c < hi \<Longrightarrow> length ys = n * w \<Longrightarrow>
              (\<forall>r<n. \<forall>c'<w. \<not> (r = r0 \<and> lo \<le> c' \<and> c' < c) \<longrightarrow> ys ! (r * w + c') = xs ! (r * w + c'))
              \<Longrightarrow> G c ys = g c"
  shows "length (for_loop lo hi (\<lambda>c ys. ys[r0 * w + c := G c ys]) xs) = n * w \<and>
         (\<forall>r<n. \<forall>c<w. for_loop lo hi (\<lambda>c ys. ys[r0 * w + c := G c ys]) xs ! (r * w + c) =
            (if r = r0 \<and> lo \<le> c \<and> c < hi then g c else xs ! (r * w + c)))"
proof (cases "lo \<le> hi")
  case False
  then show ?thesis using len by (auto simp: for_loop_empty)
next
  case True
  let ?P = "\<lambda>c0 ys. length ys = n * w \<and>
         (\<forall>r<n. \<forall>c<w. ys ! (r * w + c) = (if r = r0 \<and> lo \<le> c \<and> c < c0 then g c else xs ! (r * w + c)))"
  have "?P hi (for_loop lo hi (\<lambda>c ys. ys[r0 * w + c := G c ys]) xs)"
  proof (rule for_loop_inv [where P = ?P])
    show "?P lo xs" using len by auto
    show "lo \<le> hi" by (rule True)
  next
    fix c0 ys
    assume c0: "lo \<le> c0" "c0 < hi" and P: "?P c0 ys"
    have G: "G c0 ys = g c0"
      by (rule loc [OF c0]) (use P in auto)
    have "ys[r0 * w + c0 := G c0 ys] ! (r * w + c) =
           (if r = r0 \<and> lo \<le> c \<and> c < Suc c0 then g c else xs ! (r * w + c))"
      if rc: "r < n" "c < w" for r c
    proof -
      have in_range: "r * w + c < length ys" using P rc by (simp add: flat_index_less)
      have eq: "(r0 * w + c0 = r * w + c) = (r0 = r \<and> c0 = c)"
        using c0 hi rc by (intro flat_index_eq) auto
      show ?thesis
      proof (cases "r0 = r \<and> c0 = c")
        case True
        then show ?thesis using in_range G c0 by simp
      next
        case False
        then have "ys[r0 * w + c0 := G c0 ys] ! (r * w + c) = ys ! (r * w + c)"
          using eq by simp
        then show ?thesis using P rc False by (auto simp: less_Suc_eq)
      qed
    qed
    then show "?P (Suc c0) (ys[r0 * w + c0 := G c0 ys])" using P by simp
  qed
  then show ?thesis by simp
qed

lemma row_of_index: "c < w \<Longrightarrow> (r * w + c) div w = (r::nat)"
  by simp


lemma rows_loop:
  fixes body :: "nat \<Rightarrow> 'a list \<Rightarrow> 'a list"
  assumes len: "length xs = n * w" and hi: "hi \<le> n"
    and step: "\<And>r ys. lo \<le> r \<Longrightarrow> r < hi \<Longrightarrow> length ys = n * w \<Longrightarrow>
              (\<forall>r'<n. \<forall>c<w. ys ! (r' * w + c) =
                  (if lo \<le> r' \<and> r' < r then h r' c else xs ! (r' * w + c))) \<Longrightarrow>
              length (body r ys) = n * w \<and>
              (\<forall>r'<n. \<forall>c<w. body r ys ! (r' * w + c) = (if r' = r then h r c else ys ! (r' * w + c)))"
  shows "length (for_loop lo hi body xs) = n * w \<and>
         (\<forall>r<n. \<forall>c<w. for_loop lo hi body xs ! (r * w + c) =
            (if lo \<le> r \<and> r < hi then h r c else xs ! (r * w + c)))"
proof (cases "lo \<le> hi")
  case False
  then show ?thesis using len by (auto simp: for_loop_empty)
next
  case True
  let ?P = "\<lambda>r0 ys. length ys = n * w \<and>
         (\<forall>r<n. \<forall>c<w. ys ! (r * w + c) = (if lo \<le> r \<and> r < r0 then h r c else xs ! (r * w + c)))"
  have "?P hi (for_loop lo hi body xs)"
  proof (rule for_loop_inv [where P = ?P])
    show "?P lo xs" using len by auto
    show "lo \<le> hi" by (rule True)
  next
    fix r0 ys
    assume r0: "lo \<le> r0" "r0 < hi" and P: "?P r0 ys"
    have S: "length (body r0 ys) = n * w \<and>
              (\<forall>r'<n. \<forall>c<w. body r0 ys ! (r' * w + c) = (if r' = r0 then h r0 c else ys ! (r' * w + c)))"
      by (rule step [OF r0]) (use P in auto)
    have "body r0 ys ! (r * w + c) = (if lo \<le> r \<and> r < Suc r0 then h r c else xs ! (r * w + c))"
      if rc: "r < n" "c < w" for r c
    proof (cases "r = r0")
      case True
      then show ?thesis using S rc r0 by simp
    next
      case False
      then have "body r0 ys ! (r * w + c) = ys ! (r * w + c)" using S rc by simp
      then show ?thesis using P rc False by (auto simp: less_Suc_eq)
    qed
    then show "?P (Suc r0) (body r0 ys)" using S by simp
  qed
  then show ?thesis by simp
qed

lemma normalize_row_entries:
  assumes len: "length E = n * (2 * n)" and i: "i < n"
  shows "length (normalize_row E n i) = n * (2 * n) \<and>
         (\<forall>r<n. \<forall>c<2 * n. normalize_row E n i ! (r * (2 * n) + c) =
            (if r = i then E ! (i * (2 * n) + c) / E ! (i * (2 * n) + i) else E ! (r * (2 * n) + c)))"
proof -
  let ?w = "2 * n"
  let ?d = "E ! (i * ?w + i)"
  have "length (for_loop 0 ?w (\<lambda>c ys. ys[i * ?w + c := ys ! (i * ?w + c) / ?d]) E) = n * ?w \<and>
         (\<forall>r<n. \<forall>c<?w. for_loop 0 ?w (\<lambda>c ys. ys[i * ?w + c := ys ! (i * ?w + c) / ?d]) E ! (r * ?w + c) =
            (if r = i \<and> 0 \<le> c \<and> c < ?w then E ! (i * ?w + c) / ?d else E ! (r * ?w + c)))"
  proof (rule row_write_loop [where G = "\<lambda>c ys. ys ! (i * ?w + c) / ?d" and g = "\<lambda>c. E ! (i * ?w + c) / ?d"])
    show "length E = n * ?w" by (rule len)
    show "i < n" by (rule i)
    show "?w \<le> ?w" by simp
  next
    fix c ys
    assume c: "0 \<le> c" "c < ?w" and same: "\<forall>r<n. \<forall>c'<?w. \<not> (r = i \<and> 0 \<le> c' \<and> c' < c) \<longrightarrow>
          ys ! (r * ?w + c') = E ! (r * ?w + c')"
    have "ys ! (i * ?w + c) = E ! (i * ?w + c)" using same i c by simp
    then show "ys ! (i * ?w + c) / ?d = E ! (i * ?w + c) / ?d" by simp
  qed
  then show ?thesis by (simp add: normalize_row_def Let_def)
qed

lemma det_eliminate_entries:
  assumes len: "length mat = n * n" and i: "i < n"
  shows "length (det_eliminate mat n i pivot) = n * n \<and>
         (\<forall>r<n. \<forall>c<n. det_eliminate mat n i pivot ! (r * n + c) =
            (if i < r \<and> i \<le> c then mat ! (r * n + c) - mat ! (r * n + i) / pivot * mat ! (i * n + c)
             else mat ! (r * n + c)))"
proof -
  let ?h = "\<lambda>r c. if i \<le> c then mat ! (r * n + c) - mat ! (r * n + i) / pivot * mat ! (i * n + c)
             else mat ! (r * n + c)"
  let ?body = "\<lambda>r m. let factor = m ! (r * n + i) / pivot
       in for_loop i n (\<lambda>c m. m[r * n + c := m ! (r * n + c) - factor * m ! (i * n + c)]) m"
  have "length (for_loop (i + 1) n ?body mat) = n * n \<and>
         (\<forall>r<n. \<forall>c<n. for_loop (i + 1) n ?body mat ! (r * n + c) =
            (if i + 1 \<le> r \<and> r < n then ?h r c else mat ! (r * n + c)))"
  proof (rule rows_loop [where h = ?h])
    show "length mat = n * n" by (rule len)
    show "n \<le> n" by simp
  next
    fix r ys
    assume r: "i + 1 \<le> r" "r < n" and ly: "length ys = n * n"
      and inv: "\<forall>r'<n. \<forall>c<n. ys ! (r' * n + c) =
                  (if i + 1 \<le> r' \<and> r' < r then ?h r' c else mat ! (r' * n + c))"
    have row_r: "ys ! (r * n + c) = mat ! (r * n + c)" if "c < n" for c
      using inv r that by simp
    have row_i: "ys ! (i * n + c) = mat ! (i * n + c)" if "c < n" for c
      using inv i that by simp
    let ?f = "ys ! (r * n + i) / pivot"
    have W: "length (for_loop i n (\<lambda>c m. m[r * n + c := m ! (r * n + c) - ?f * m ! (i * n + c)]) ys) = n * n \<and>
         (\<forall>r'<n. \<forall>c<n. for_loop i n (\<lambda>c m. m[r * n + c := m ! (r * n + c) - ?f * m ! (i * n + c)]) ys ! (r' * n + c) =
            (if r' = r \<and> i \<le> c \<and> c < n then ys ! (r * n + c) - ?f * ys ! (i * n + c) else ys ! (r' * n + c)))"
    proof (rule row_write_loop [where G = "\<lambda>c m. m ! (r * n + c) - ?f * m ! (i * n + c)"
          and g = "\<lambda>c. ys ! (r * n + c) - ?f * ys ! (i * n + c)"])
      show "length ys = n * n" by (rule ly)
      show "r < n" by (rule r)
      show "n \<le> n" by simp
    next
      fix c m
      assume c: "i \<le> c" "c < n"
        and same: "\<forall>r'<n. \<forall>c'<n. \<not> (r' = r \<and> i \<le> c' \<and> c' < c) \<longrightarrow> m ! (r' * n + c') = ys ! (r' * n + c')"
      have "m ! (r * n + c) = ys ! (r * n + c)" using same r c by simp
      moreover have "m ! (i * n + c) = ys ! (i * n + c)" using same r c i by simp
      ultimately show "m ! (r * n + c) - ?f * m ! (i * n + c) = ys ! (r * n + c) - ?f * ys ! (i * n + c)"
        by simp
    qed
    have "?body r ys ! (r' * n + c) = (if r' = r then ?h r c else ys ! (r' * n + c))"
      if rc: "r' < n" "c < n" for r' c
    proof -
      have "?body r ys ! (r' * n + c) =
          (if r' = r \<and> i \<le> c \<and> c < n then ys ! (r * n + c) - ?f * ys ! (i * n + c) else ys ! (r' * n + c))"
        using W rc by (simp add: Let_def)
      then show ?thesis using row_r row_i rc i by auto
    qed
    then show "length (?body r ys) = n * n \<and>
              (\<forall>r'<n. \<forall>c<n. ?body r ys ! (r' * n + c) = (if r' = r then ?h r c else ys ! (r' * n + c)))"
      using W by (simp add: Let_def)
  qed
  then show ?thesis by (auto simp: det_eliminate_def)
qed

lemma inverse_eliminate_entries:
  assumes len: "length E = n * (2 * n)" and i: "i < n"
  shows "length (inverse_eliminate E n i) = n * (2 * n) \<and>
         (\<forall>r<n. \<forall>c<2 * n. inverse_eliminate E n i ! (r * (2 * n) + c) =
            (if r = i \<or> \<bar>E ! (r * (2 * n) + i)\<bar> < EPS then E ! (r * (2 * n) + c)
             else E ! (r * (2 * n) + c) - E ! (r * (2 * n) + i) * E ! (i * (2 * n) + c)))"
proof -
  let ?w = "2 * n"
  let ?small = "\<lambda>r. \<bar>E ! (r * ?w + i)\<bar> < EPS"
  let ?h = "\<lambda>r c. if r = i \<or> ?small r then E ! (r * ?w + c)
             else E ! (r * ?w + c) - E ! (r * ?w + i) * E ! (i * ?w + c)"
  let ?inner = "\<lambda>r f ys. for_loop 0 ?w (\<lambda>c m. m[r * ?w + c := m ! (r * ?w + c) - f * m ! (i * ?w + c)]) ys"
  let ?body = "\<lambda>r ys. if r = i then ys
       else let factor = ys ! (r * ?w + i)
            in if \<bar>factor\<bar> < EPS then ys else ?inner r factor ys"
  have "length (for_loop 0 n ?body E) = n * ?w \<and>
         (\<forall>r<n. \<forall>c<?w. for_loop 0 n ?body E ! (r * ?w + c) =
            (if 0 \<le> r \<and> r < n then ?h r c else E ! (r * ?w + c)))"
  proof (rule rows_loop [where h = ?h])
    show "length E = n * ?w" by (rule len)
    show "n \<le> n" by simp
  next
    fix r ys
    assume r: "0 \<le> r" "r < n" and ly: "length ys = n * ?w"
      and inv: "\<forall>r'<n. \<forall>c<?w. ys ! (r' * ?w + c) =
                  (if 0 \<le> r' \<and> r' < r then ?h r' c else E ! (r' * ?w + c))"
    have row_r: "ys ! (r * ?w + c) = E ! (r * ?w + c)" if "c < ?w" for c
      using inv r that by simp
    have row_i: "ys ! (i * ?w + c) = E ! (i * ?w + c)" if "c < ?w" for c
      using inv i that by simp
    have fac: "ys ! (r * ?w + i) = E ! (r * ?w + i)" using row_r [of i] i by simp
    show "length (?body r ys) = n * ?w \<and>
              (\<forall>r'<n. \<forall>c<?w. ?body r ys ! (r' * ?w + c) = (if r' = r then ?h r c else ys ! (r' * ?w + c)))"
    proof (cases "r = i \<or> ?small r")
      case True
      then have "?body r ys = ys" using fac by (auto simp: Let_def)
      then show ?thesis using ly True row_r by auto
    next
      case False
      let ?f = "E ! (r * ?w + i)"
      have B: "?body r ys = ?inner r ?f ys" using False fac by (simp add: Let_def)
      have W: "length (?inner r ?f ys) = n * ?w \<and>
         (\<forall>r'<n. \<forall>c<?w. ?inner r ?f ys ! (r' * ?w + c) =
            (if r' = r \<and> 0 \<le> c \<and> c < ?w then ys ! (r * ?w + c) - ?f * ys ! (i * ?w + c) else ys ! (r' * ?w + c)))"
      proof (rule row_write_loop [where G = "\<lambda>c m. m ! (r * ?w + c) - ?f * m ! (i * ?w + c)"
            and g = "\<lambda>c. ys ! (r * ?w + c) - ?f * ys ! (i * ?w + c)"])
        show "length ys = n * ?w" by (rule ly)
        show "r < n" by (rule r)
        show "?w \<le> ?w" by simp
      next
        fix c m
        assume c: "0 \<le> c" "c < ?w"
          and same: "\<forall>r'<n. \<forall>c'<?w. \<not> (r' = r \<and> 0 \<le> c' \<and> c' < c) \<longrightarrow> m ! (r' * ?w + c') = ys ! (r' * ?w + c')"
        have "m ! (r * ?w + c) = ys ! (r * ?w + c)" using same r c by simp
        moreover have "m ! (i * ?w + c) = ys ! (i * ?w + c)" using same False c i by simp
        ultimately show "m ! (r * ?w + c) - ?f * m ! (i * ?w + c) = ys ! (r * ?w + c) - ?f * ys ! (i * ?w + c)"
          by simp
      qed
      have "?inner r ?f ys ! (r' * ?w + c) = (if r' = r then ?h r c else ys ! (r' * ?w + c))"
        if rc: "r' < n" "c < ?w" for r' c
      proof -
        have "?inner r ?f ys ! (r' * ?w + c) =
            (if r' = r then ys ! (r * ?w + c) - ?f * ys ! (i * ?w + c) else ys ! (r' * ?w + c))"
          using W rc by simp
        then show ?thesis using row_r [OF rc(2)] row_i [OF rc(2)] False by simp
      qed
      then show ?thesis using W B by simp
    qed
  qed
  then show ?thesis by (simp add: inverse_eliminate_def)
qed

lemma inverse_fill_entries:
  "length (inverse_fill a n) = n * (2 * n) \<and>
   (\<forall>r<n. \<forall>c<2 * n. inverse_fill a n ! (r * (2 * n) + c) =
      (if c < n then matrix_get a r c else if r = c - n then 1 else 0))"
proof -
  let ?w = "2 * n"
  let ?h = "\<lambda>r c. if c < n then matrix_get a r c else if r = c - n then 1 else (0::real)"
  let ?inner = "\<lambda>i E. for_loop 0 n (\<lambda>j E.
         let E1 = E[i * ?w + j := matrix_get a i j]
         in E1[i * ?w + (n + j) := (if i = j then 1 else 0)]) E"
  have "length (for_loop 0 n ?inner (replicate (n * 2 * n) 0)) = n * ?w \<and>
         (\<forall>r<n. \<forall>c<?w. for_loop 0 n ?inner (replicate (n * 2 * n) 0) ! (r * ?w + c) =
            (if 0 \<le> r \<and> r < n then ?h r c else replicate (n * 2 * n) 0 ! (r * ?w + c)))"
  proof (rule rows_loop [where h = ?h])
    show "length (replicate (n * 2 * n) (0::real)) = n * ?w" by simp
    show "n \<le> n" by simp
  next
    fix i ys
    assume i: "0 \<le> i" "i < n" and ly: "length (ys::real list) = n * ?w"
    let ?P = "\<lambda>j0 E. length E = n * ?w \<and>
       (\<forall>r<n. \<forall>c<?w. E ! (r * ?w + c) =
          (if r = i \<and> (c < j0 \<or> (n \<le> c \<and> c < n + j0)) then ?h i c else ys ! (r * ?w + c)))"
    let ?b = "\<lambda>j E. let E1 = E[i * ?w + j := matrix_get a i j]
         in E1[i * ?w + (n + j) := (if i = j then 1 else 0)]"
    have "?P n (for_loop 0 n ?b ys)"
    proof (rule for_loop_inv [where P = ?P])
      show "?P 0 ys" using ly by simp
      show "0 \<le> n" by simp
    next
      fix j E
      assume j: "0 \<le> j" "j < n" and P: "?P j E"
      have "?b j E ! (r * ?w + c) =
          (if r = i \<and> (c < Suc j \<or> (n \<le> c \<and> c < n + Suc j)) then ?h i c else ys ! (r * ?w + c))"
        if rc: "r < n" "c < ?w" for r c
      proof -
        have in_range: "r * ?w + c < length E" using P rc by (simp add: flat_index_less)
        have e1: "(i * ?w + j = r * ?w + c) = (i = r \<and> j = c)"
          using j rc by (intro flat_index_eq) auto
        have e2: "(i * ?w + (n + j) = r * ?w + c) = (i = r \<and> n + j = c)"
          using j rc by (intro flat_index_eq) auto
        have old: "E ! (r * ?w + c) =
          (if r = i \<and> (c < j \<or> (n \<le> c \<and> c < n + j)) then ?h i c else ys ! (r * ?w + c))"
          using P rc by blast
        consider (a) "r = i" "c = j" | (b) "r = i" "c = n + j" | (c) "r \<noteq> i \<or> (c \<noteq> j \<and> c \<noteq> n + j)"
          by blast
        then show ?thesis
        proof cases
          case a
          then show ?thesis using in_range j e1 e2 by (simp add: Let_def)
        next
          case b
          then show ?thesis using in_range j e1 e2 by (auto simp: Let_def)
        next
          case c
          then have "?b j E ! (r * ?w + c) = E ! (r * ?w + c)"
            using e1 e2 by (auto simp: Let_def)
          then show ?thesis using old c by (auto simp: less_Suc_eq)
        qed
      qed
      then show "?P (Suc j) (?b j E)" using P by (simp add: Let_def)
    qed
    then have R: "length (?inner i ys) = n * ?w"
      "\<And>r c. r < n \<Longrightarrow> c < ?w \<Longrightarrow> ?inner i ys ! (r * ?w + c) =
          (if r = i \<and> (c < n \<or> (n \<le> c \<and> c < n + n)) then ?h i c else ys ! (r * ?w + c))"
      by blast+
    have "?inner i ys ! (r * ?w + c) = (if r = i then ?h i c else ys ! (r * ?w + c))"
      if rc: "r < n" "c < ?w" for r c
      using R(2) [OF rc] rc by auto
    then show "length (?inner i ys) = n * ?w \<and>
              (\<forall>r'<n. \<forall>c<?w. ?inner i ys ! (r' * ?w + c) = (if r' = i then ?h i c else ys ! (r' * ?w + c)))"
      using R(1) by blast
  qed
  then show ?thesis by (simp add: inverse_fill_def)
qed

text \<open>Loops on the struct that only write its cells are loops on the cells.\<close>

lemma for_loop_data:
  "for_loop lo hi (\<lambda>j m. m\<lparr>data := F j (cols m) (data m)\<rparr>) m =
     m\<lparr>data := for_loop lo hi (\<lambda>j. F j (cols m)) (data m)\<rparr>"
proof (induction hi)
  case 0
  then show ?case by (simp add: for_loop_empty)
next
  case (Suc hi)
  show ?case
  proof (cases "lo \<le> hi")
    case True
    then show ?thesis using Suc by (simp add: for_loop_Suc)
  next
    case False
    then show ?thesis by (simp add: for_loop_empty)
  qed
qed

lemma inverse_extract_entries:
  "rows (inverse_extract E n) = n \<and> cols (inverse_extract E n) = n \<and>
   length (data (inverse_extract E n)) = n * n \<and>
   (\<forall>r<n. \<forall>c<n. data (inverse_extract E n) ! (r * n + c) = E ! (r * (2 * n) + (n + c)))"
proof -
  let ?row = "\<lambda>i ys. for_loop 0 n (\<lambda>j ys. ys[i * n + j := E ! (i * (2 * n) + (n + j))]) ys"
  have inner: "(\<lambda>i inv. for_loop 0 n (\<lambda>j inv.
         inv\<lparr>data := (data inv)[i * n + j := E ! (i * (2 * n) + (n + j))]\<rparr>) inv)
       = (\<lambda>i inv. inv\<lparr>data := ?row i (data inv)\<rparr>)"
    by (intro ext) (rule for_loop_data [where F = "\<lambda>j cs ys. ys[_ * n + j := E ! (_ * (2 * n) + (n + j))]"])
  have ex: "inverse_extract E n = (matrix_create n n)\<lparr>data := for_loop 0 n ?row (replicate (n * n) 0)\<rparr>"
    unfolding inverse_extract_def inner
    using for_loop_data [where F = "\<lambda>i cs ys. ?row i ys" and lo = 0 and hi = n and m = "matrix_create n n"]
    by (simp add: matrix_create_def)
  have "length (for_loop 0 n ?row (replicate (n * n) 0)) = n * n \<and>
         (\<forall>r<n. \<forall>c<n. for_loop 0 n ?row (replicate (n * n) 0) ! (r * n + c) =
            (if 0 \<le> r \<and> r < n then E ! (r * (2 * n) + (n + c)) else replicate (n * n) 0 ! (r * n + c)))"
  proof (rule rows_loop [where h = "\<lambda>r c. E ! (r * (2 * n) + (n + c))"])
    show "length (replicate (n * n) (0::real)) = n * n" by simp
    show "n \<le> n" by simp
  next
    fix i ys
    assume i: "0 \<le> i" "i < n" and ly: "length (ys::real list) = n * n"
    have "length (?row i ys) = n * n \<and>
         (\<forall>r<n. \<forall>c<n. ?row i ys ! (r * n + c) =
            (if r = i \<and> 0 \<le> c \<and> c < n then E ! (i * (2 * n) + (n + c)) else ys ! (r * n + c)))"
      by (rule row_write_loop [where G = "\<lambda>j ys. E ! (i * (2 * n) + (n + j))"
            and g = "\<lambda>j. E ! (i * (2 * n) + (n + j))"]) (use i ly in simp_all)
    then show "length (?row i ys) = n * n \<and>
              (\<forall>r'<n. \<forall>c<n. ?row i ys ! (r' * n + c) =
                  (if r' = i then E ! (i * (2 * n) + (n + c)) else ys ! (r' * n + c)))"
      by simp
  qed
  then show ?thesis unfolding ex by (simp add: matrix_create_def)
qed



lemma identity_matrix_entries:
  "rows (identity_matrix n) = n" "cols (identity_matrix n) = n"
  "length (data (identity_matrix n)) = n * n"
  "r < n \<Longrightarrow> c < n \<Longrightarrow> data (identity_matrix n) ! (r * n + c) = (if r = c then 1 else 0)"
proof -
  show "rows (identity_matrix n) = n" "cols (identity_matrix n) = n"
    "length (data (identity_matrix n)) = n * n"
    by (simp_all add: identity_matrix_def)
  assume rc: "r < n" "c < n"
  then have "r * n + c < n * n" by (rule flat_index_less)
  then show "data (identity_matrix n) ! (r * n + c) = (if r = c then 1 else 0)"
    using rc by (simp add: identity_matrix_def)
qed

lemma for_ctl_fixed:
  assumes "\<And>i. lo \<le> i \<Longrightarrow> i < hi \<Longrightarrow> body i s = Next s"
  shows "for_ctl lo hi body s = Next s"
proof (cases "lo \<le> hi")
  case False
  then show ?thesis by (simp add: for_ctl_empty)
next
  case True
  then show ?thesis using assms
  proof (induction hi)
    case 0
    then show ?case by (simp add: for_ctl_empty)
  next
    case (Suc hi)
    show ?case
    proof (cases "lo \<le> hi")
      case True
      then show ?thesis using Suc by (simp add: for_ctl_Suc)
    next
      case False
      then show ?thesis by (simp add: for_ctl_empty)
    qed
  qed
qed

lemma EPS_less_one: "\<not> \<bar>1::real\<bar> < EPS" "\<bar>0::real\<bar> < EPS"
  by (simp_all add: EPS_def)

text \<open>The pivot search stays on row \<open>i\<close> when no later row is strictly larger there.\<close>

lemma find_pivot_stays:
  assumes "i < n" and "\<And>r. i < r \<Longrightarrow> r < n \<Longrightarrow> \<bar>xs ! (r * w + i)\<bar> \<le> \<bar>xs ! (i * w + i)\<bar>"
  shows "find_pivot xs w n i = i"
proof (rule ccontr)
  assume ne: "find_pivot xs w n i \<noteq> i"
  let ?p = "find_pivot xs w n i"
  have p: "i \<le> ?p" "?p < n" using find_pivot_spec(1,2) [OF assms(1)] by simp_all
  then have lt: "i < ?p" using ne by simp
  with find_pivot_spec(4) [OF assms(1), of i xs w] have "\<bar>xs ! (i * w + i)\<bar> < \<bar>xs ! (?p * w + i)\<bar>"
    by simp
  moreover have "\<bar>xs ! (?p * w + i)\<bar> \<le> \<bar>xs ! (i * w + i)\<bar>" using assms(2) lt p by simp
  ultimately show False by simp
qed

lemma det_step_identity:
  assumes i: "i < n"
  shows "det_step n i (data (identity_matrix n), 1, 1) = Next (data (identity_matrix n), 1, 1)"
proof -
  let ?I = "data (identity_matrix n)"
  have ent: "\<And>r c. r < n \<Longrightarrow> c < n \<Longrightarrow> ?I ! (r * n + c) = (if r = c then 1 else 0)"
    by (rule identity_matrix_entries(4))
  have piv: "find_pivot ?I n n i = i"
    by (rule find_pivot_stays [OF i]) (use ent i in simp)
  have diag: "?I ! (i * n + i) = 1" using ent i by simp
  have "det_eliminate ?I n i 1 = ?I"
  proof (rule flat_ext [where n = n and w = n])
    show "length (det_eliminate ?I n i 1) = n * n"
      using det_eliminate_entries [of ?I n i 1] i identity_matrix_entries(3) by simp
    show "length ?I = n * n" by (rule identity_matrix_entries(3))
  next
    fix r c assume rc: "r < n" "c < n"
    have "det_eliminate ?I n i 1 ! (r * n + c) =
          (if i < r \<and> i \<le> c then ?I ! (r * n + c) - ?I ! (r * n + i) / 1 * ?I ! (i * n + c)
             else ?I ! (r * n + c))"
      using det_eliminate_entries [of ?I n i 1] i identity_matrix_entries(3) rc by simp
    then show "det_eliminate ?I n i 1 ! (r * n + c) = ?I ! (r * n + c)"
      using ent rc i by auto
  qed
  then show ?thesis using piv diag EPS_less_one(1) by (simp add: det_step_def)
qed

lemma inverse_fill_identity:
  "r < n \<Longrightarrow> c < 2 * n \<Longrightarrow>
     inverse_fill (identity_matrix n) n ! (r * (2 * n) + c) = (if c = r \<or> c = n + r then 1 else 0)"
proof -
  assume rc: "r < n" "c < 2 * n"
  have "inverse_fill (identity_matrix n) n ! (r * (2 * n) + c) =
      (if c < n then matrix_get (identity_matrix n) r c else if r = c - n then 1 else 0)"
    using inverse_fill_entries rc by simp
  then show ?thesis using rc
    by (auto simp: matrix_get_def identity_matrix_entries)
qed

lemma inverse_step_identity:
  assumes i: "i < n"
  shows "inverse_step n i (inverse_fill (identity_matrix n) n) = Next (inverse_fill (identity_matrix n) n)"
proof -
  let ?E = "inverse_fill (identity_matrix n) n"
  let ?w = "2 * n"
  have len: "length ?E = n * ?w" using inverse_fill_entries by simp
  have ent: "\<And>r c. r < n \<Longrightarrow> c < ?w \<Longrightarrow> ?E ! (r * ?w + c) = (if c = r \<or> c = n + r then 1 else 0)"
    by (rule inverse_fill_identity)
  have piv: "find_pivot ?E ?w n i = i"
    by (rule find_pivot_stays [OF i]) (use ent i in simp)
  have diag: "?E ! (i * ?w + i) = 1" using ent i by simp
  have norm: "normalize_row ?E n i = ?E"
  proof (rule flat_ext [where n = n and w = ?w])
    show "length (normalize_row ?E n i) = n * ?w" using normalize_row_entries [OF len i] by simp
    show "length ?E = n * ?w" by (rule len)
  next
    fix r c assume rc: "r < n" "c < ?w"
    show "normalize_row ?E n i ! (r * ?w + c) = ?E ! (r * ?w + c)"
      using normalize_row_entries [OF len i] rc diag by simp
  qed
  have elim: "inverse_eliminate ?E n i = ?E"
  proof (rule flat_ext [where n = n and w = ?w])
    show "length (inverse_eliminate ?E n i) = n * ?w" using inverse_eliminate_entries [OF len i] by simp
    show "length ?E = n * ?w" by (rule len)
  next
    fix r c assume rc: "r < n" "c < ?w"
    have small: "r \<noteq> i \<Longrightarrow> \<bar>?E ! (r * ?w + i)\<bar> < EPS"
      using ent [of r i] rc i EPS_less_one(2) by simp
    have "inverse_eliminate ?E n i ! (r * ?w + c) =
            (if r = i \<or> \<bar>?E ! (r * ?w + i)\<bar> < EPS then ?E ! (r * ?w + c)
             else ?E ! (r * ?w + c) - ?E ! (r * ?w + i) * ?E ! (i * ?w + c))"
      using inverse_eliminate_entries [OF len i] rc by simp
    then show "inverse_eliminate ?E n i ! (r * ?w + c) = ?E ! (r * ?w + c)"
      using small by auto
  qed
  show ?thesis using piv diag EPS_less_one(1) norm elim by (simp add: inverse_step_def)
qed

section \<open>The determinant loop against its specification\<close>








section \<open>The elimination of the inverse keeps the solutions\<close>








lemma for_ctl_Next_reach:
  assumes "for_ctl lo hi body s = Next t" "lo \<le> mid" "mid \<le> hi"
  shows "\<exists>u. for_ctl lo mid body s = Next u"
  using assms for_ctl_split [OF assms(2,3), of body s] by (auto split: ctl.splits)




section \<open>The routines on the explicit memory compute the same values\<close>

text \<open>
  Every loop on the memory writes the one block it is given, and does to the content of
  that block what the loop on the value does. So the routines on the memory return what
  the routines on the values return, and the memory they leave behind is known.
\<close>

lemma on_block_simps:
  "structs (on_block \<mu> q f) = structs \<mu>"
  "brk (on_block \<mu> q f) = brk \<mu>"
  "blocks (on_block \<mu> q f) q = Some (f (the (blocks \<mu> q)))"
  "q' \<noteq> q \<Longrightarrow> blocks (on_block \<mu> q f) q' = blocks \<mu> q'"
  "rd (on_block \<mu> q f) q k = f (the (blocks \<mu> q)) ! k"
  "q' \<noteq> q \<Longrightarrow> rd (on_block \<mu> q f) q' k = rd \<mu> q' k"
  "wr (on_block \<mu> q f) q k v = on_block \<mu> q (\<lambda>xs. (f xs)[k := v])"
  by (simp_all add: on_block_def rd_def wr_def)

lemma on_block_cong:
  "f (the (blocks \<mu> q)) = g (the (blocks \<mu> q)) \<Longrightarrow> on_block \<mu> q f = on_block \<mu> q g"
  by (simp add: on_block_def)

lemma on_block_id: "blocks \<mu> q = Some xs \<Longrightarrow> on_block \<mu> q (\<lambda>_. xs) = \<mu>"
  by (simp add: on_block_def fun_upd_idem)

lemma for_loop_on_block:
  assumes "\<And>c ys. bm c (on_block \<mu> q (\<lambda>_. ys)) = on_block \<mu> q (\<lambda>_. b c ys)"
  shows "for_loop lo hi bm (on_block \<mu> q (\<lambda>_. xs)) = on_block \<mu> q (\<lambda>_. for_loop lo hi b xs)"
proof (induction hi)
  case 0
  then show ?case by (simp add: for_loop_empty)
next
  case (Suc hi)
  show ?case
  proof (cases "lo \<le> hi")
    case True
    then show ?thesis using Suc assms by (simp add: for_loop_Suc)
  next
    case False
    then show ?thesis by (simp add: for_loop_empty)
  qed
qed

lemma for_ctl_map:
  assumes "\<And>i t. bm i (L t) = map_ctl L (b i t)"
  shows "for_ctl lo hi bm (L s) = map_ctl L (for_ctl lo hi b s)"
proof (induction hi)
  case 0
  then show ?case by (simp add: for_ctl_empty)
next
  case (Suc hi)
  show ?case
  proof (cases "lo \<le> hi")
    case True
    then show ?thesis using Suc assms by (simp add: for_ctl_Suc split: ctl.splits)
  next
    case False
    then show ?thesis by (simp add: for_ctl_empty)
  qed
qed

lemma find_pivot_mem_block:
  "find_pivot_mem (on_block \<mu> q (\<lambda>_. xs)) q w n i = find_pivot xs w n i"
  by (simp add: find_pivot_mem_def find_pivot_def on_block_simps)

lemma swap_rows_mem_block:
  "swap_rows_mem (on_block \<mu> q (\<lambda>_. xs)) q w i piv = on_block \<mu> q (\<lambda>_. swap_rows xs w i piv)"
  unfolding swap_rows_mem_def swap_rows_def
  by (rule for_loop_on_block) (simp add: on_block_simps Let_def)

lemma det_eliminate_mem_block:
  "det_eliminate_mem (on_block \<mu> q (\<lambda>_. xs)) q n i pivot = on_block \<mu> q (\<lambda>_. det_eliminate xs n i pivot)"
proof -
  have inner: "for_loop i n (\<lambda>c \<mu>.
            wr \<mu> q (r * n + c) (rd \<mu> q (r * n + c) - f * rd \<mu> q (i * n + c))) (on_block \<mu> q (\<lambda>_. ys))
      = on_block \<mu> q (\<lambda>_. for_loop i n (\<lambda>c m. m[r * n + c := m ! (r * n + c) - f * m ! (i * n + c)]) ys)"
    for r f ys
    by (rule for_loop_on_block) (simp add: on_block_simps)
  show ?thesis
    unfolding det_eliminate_mem_def det_eliminate_def
    by (rule for_loop_on_block) (simp add: on_block_simps Let_def inner)
qed

lemma det_step_mem_block:
  "det_step_mem q n i (on_block \<mu> q (\<lambda>_. xs), d, s) =
     map_ctl (\<lambda>(ys, d, s). (on_block \<mu> q (\<lambda>_. ys), d, s)) (det_step n i (xs, d, s))"
  by (simp add: det_step_mem_def det_step_def find_pivot_mem_block swap_rows_mem_block
      det_eliminate_mem_block on_block_simps Let_def)

lemma normalize_row_mem_block:
  "normalize_row_mem (on_block \<mu> q (\<lambda>_. xs)) q n i = on_block \<mu> q (\<lambda>_. normalize_row xs n i)"
  unfolding normalize_row_mem_def normalize_row_def Let_def on_block_simps
  by (rule for_loop_on_block) (simp add: on_block_simps)

lemma inverse_eliminate_mem_block:
  "inverse_eliminate_mem (on_block \<mu> q (\<lambda>_. xs)) q n i = on_block \<mu> q (\<lambda>_. inverse_eliminate xs n i)"
proof -
  have inner: "for_loop 0 (2 * n) (\<lambda>c \<mu>.
                   wr \<mu> q (r * (2 * n) + c)
                     (rd \<mu> q (r * (2 * n) + c) - f * rd \<mu> q (i * (2 * n) + c))) (on_block \<mu> q (\<lambda>_. ys))
      = on_block \<mu> q (\<lambda>_. for_loop 0 (2 * n) (\<lambda>c E.
                   E[r * (2 * n) + c := E ! (r * (2 * n) + c) - f * E ! (i * (2 * n) + c)]) ys)"
    for r f ys
    by (rule for_loop_on_block) (simp add: on_block_simps)
  show ?thesis
    unfolding inverse_eliminate_mem_def inverse_eliminate_def
    by (rule for_loop_on_block) (simp add: on_block_simps Let_def inner)
qed

lemma inverse_step_mem_block:
  "inverse_step_mem q n i (on_block \<mu> q (\<lambda>_. xs)) =
     map_ctl (\<lambda>ys. on_block \<mu> q (\<lambda>_. ys)) (inverse_step n i xs)"
  by (simp add: inverse_step_mem_def inverse_step_def find_pivot_mem_block swap_rows_mem_block
      normalize_row_mem_block inverse_eliminate_mem_block on_block_simps Let_def)

lemma inverse_extract_data:
  "inverse_extract E n =
     \<lparr>rows = n, cols = n,
      data = for_loop 0 n (\<lambda>i ys. for_loop 0 n (\<lambda>j ys. ys[i * n + j := E ! (i * (2 * n) + (n + j))]) ys)
               (replicate (n * n) 0)\<rparr>"
proof -
  let ?row = "\<lambda>i ys. for_loop 0 n (\<lambda>j ys. ys[i * n + j := E ! (i * (2 * n) + (n + j))]) ys"
  have inner: "(\<lambda>i inv. for_loop 0 n (\<lambda>j inv.
         inv\<lparr>data := (data inv)[i * n + j := E ! (i * (2 * n) + (n + j))]\<rparr>) inv)
       = (\<lambda>i inv. inv\<lparr>data := ?row i (data inv)\<rparr>)"
    by (intro ext) (rule for_loop_data [where F = "\<lambda>j cs ys. ys[_ * n + j := E ! (_ * (2 * n) + (n + j))]"])
  show ?thesis
    unfolding inverse_extract_def inner
    using for_loop_data [where F = "\<lambda>i cs ys. ?row i ys" and lo = 0 and hi = n and m = "matrix_create n n"]
    by (simp add: matrix_create_def)
qed

lemma inverse_fill_mem_block:
  assumes a: "structs \<mu> a = Some s" and ne: "s_data s \<noteq> q"
  shows "inverse_fill_mem (on_block \<mu> q (\<lambda>_. replicate (n * 2 * n) 0)) a q n =
         on_block \<mu> q (\<lambda>_. inverse_fill (matrix_at \<mu> a) n)"
proof -
  have get: "matrix_get_mem (on_block \<mu> q f) a i j = matrix_get (matrix_at \<mu> a) i j" for f i j
    using a ne by (simp add: matrix_get_mem_def matrix_get_def matrix_at_def on_block_simps rd_def)
  have inner: "for_loop 0 n (\<lambda>j \<mu>.
         wr (wr \<mu> q (i * (2 * n) + j) (matrix_get_mem \<mu> a i j))
           q (i * (2 * n) + (n + j)) (if i = j then 1 else 0)) (on_block \<mu> q (\<lambda>_. ys))
      = on_block \<mu> q (\<lambda>_. for_loop 0 n (\<lambda>j E.
         E[i * (2 * n) + j := matrix_get (matrix_at \<mu> a) i j,
           i * (2 * n) + (n + j) := (if i = j then 1 else 0)]) ys)" for i ys
    by (rule for_loop_on_block) (simp add: on_block_simps get)
  show ?thesis
    unfolding inverse_fill_mem_def inverse_fill_def Let_def
    by (rule for_loop_on_block) (rule inner)
qed

lemma inverse_extract_mem_block:
  assumes m: "structs \<mu> m = Some \<lparr>s_rows = n, s_cols = n, s_data = d\<rparr>" and ne: "d \<noteq> q"
    and E: "blocks \<mu> q = Some E"
  shows "inverse_extract_mem (on_block \<mu> d (\<lambda>_. replicate (n * n) 0)) q m n =
         on_block \<mu> d (\<lambda>_. data (inverse_extract E n))"
proof -
  have inner: "for_loop 0 n (\<lambda>j \<mu>.
         wr \<mu> (s_data (the (structs \<mu> m))) (i * n + j) (rd \<mu> q (i * (2 * n) + (n + j)))) (on_block \<mu> d (\<lambda>_. ys))
      = on_block \<mu> d (\<lambda>_. for_loop 0 n (\<lambda>j ys. ys[i * n + j := E ! (i * (2 * n) + (n + j))]) ys)" for i ys
    by (rule for_loop_on_block) (use m ne E in \<open>simp add: on_block_simps rd_def\<close>)
  show ?thesis
    unfolding inverse_extract_mem_def inverse_extract_data
    by (simp add: for_loop_on_block [where b = "\<lambda>i ys. for_loop 0 n (\<lambda>j ys. ys[i * n + j := E ! (i * (2 * n) + (n + j))]) ys"] inner)
qed

lemma matrix_determinant_mem_value:
  assumes a: "structs \<mu> a = Some s" and xs: "blocks \<mu> (s_data s) = Some xs"
    and fresh: "blocks \<mu> (brk \<mu>) = None"
  shows "matrix_determinant_mem \<mu> (Some a) =
           (matrix_determinant (Some (matrix_at \<mu> a)),
            if s_rows s \<noteq> s_cols s then \<mu> else \<mu>\<lparr>brk := Suc (brk \<mu>)\<rparr>)"
proof (cases "s_rows s = s_cols s")
  case False
  then show ?thesis using a by (simp add: matrix_determinant_mem_def matrix_determinant_def matrix_at_def)
next
  case True
  let ?n = "s_rows s" and ?q = "brk \<mu>"
  let ?\<mu>1 = "\<mu>\<lparr>blocks := (blocks \<mu>)(?q \<mapsto> replicate (?n * ?n) 0), brk := Suc ?q\<rparr>"
  let ?L = "\<lambda>(ys, d, s). (on_block ?\<mu>1 ?q (\<lambda>_. ys), d :: real, s :: int)"
  have ne: "s_data s \<noteq> ?q" using xs fresh by auto
  have cp: "memcpy ?\<mu>1 ?q (s_data s) (?n * ?n) = on_block ?\<mu>1 ?q (\<lambda>_. take (?n * ?n) xs)"
    using ne xs by (simp add: memcpy_def on_block_def)
  have run: "for_ctl 0 ?n (det_step_mem ?q ?n) (?L (take (?n * ?n) xs, 1, 1)) =
      map_ctl ?L (for_ctl 0 ?n (det_step ?n) (take (?n * ?n) xs, 1, 1))"
    by (rule for_ctl_map) (simp add: det_step_mem_block split: prod.splits)
  have fr: "free (on_block ?\<mu>1 ?q f) ?q = \<mu>\<lparr>brk := Suc ?q\<rparr>" for f
    using fresh by (simp add: free_def on_block_def fun_upd_idem)
  have A: "matrix_at \<mu> a = \<lparr>rows = ?n, cols = s_cols s, data = xs\<rparr>"
    using a xs by (simp add: matrix_at_def)
  obtain ys d sg where fin: "(case for_ctl 0 ?n (det_step ?n) (take (?n * ?n) xs, 1, 1) of
      Next t \<Rightarrow> t | Stop t \<Rightarrow> t) = (ys, d, sg)"
    by (cases "case for_ctl 0 ?n (det_step ?n) (take (?n * ?n) xs, 1, 1) of Next t \<Rightarrow> t | Stop t \<Rightarrow> t") auto
  have finm: "(case for_ctl 0 ?n (det_step_mem ?q ?n) (on_block ?\<mu>1 ?q (\<lambda>_. take (?n * ?n) xs), 1, 1) of
      Next t \<Rightarrow> t | Stop t \<Rightarrow> t) = (on_block ?\<mu>1 ?q (\<lambda>_. ys), d, sg)"
    using run fin by (auto split: ctl.splits)
  have sq: "s_cols s = s_rows s" using True by simp
  show ?thesis
    using a
    by (simp add: matrix_determinant_mem_def matrix_determinant_def A sq malloc_def cp finm fin fr Let_def)
qed

lemma matrix_inverse_mem_value:
  assumes a: "structs \<mu> a = Some s" and xs: "blocks \<mu> (s_data s) = Some xs"
    and fresh: "blocks \<mu> (brk \<mu>) = None"
  shows "matrix_inverse_mem \<mu> (Some a) =
     (case matrix_inverse (Some (matrix_at \<mu> a)) of
        (None, err) \<Rightarrow> ((None, err), if s_rows s \<noteq> s_cols s then \<mu> else \<mu>\<lparr>brk := Suc (brk \<mu>)\<rparr>)
      | (Some R, err) \<Rightarrow>
          ((Some (Suc (brk \<mu>)), err),
           \<mu>\<lparr>structs := (structs \<mu>)(Suc (brk \<mu>) \<mapsto>
                  \<lparr>s_rows = rows R, s_cols = cols R, s_data = Suc (Suc (brk \<mu>))\<rparr>),
             blocks := (blocks \<mu>)(Suc (Suc (brk \<mu>)) \<mapsto> data R),
             brk := Suc (Suc (Suc (brk \<mu>)))\<rparr>))"
proof (cases "s_rows s = s_cols s")
  case False
  then show ?thesis using a by (simp add: matrix_inverse_mem_def matrix_inverse_def matrix_at_def)
next
  case True
  let ?n = "s_rows s" and ?q = "brk \<mu>"
  let ?z = "replicate (?n * 2 * ?n) (0::real)"
  let ?\<mu>1 = "\<mu>\<lparr>blocks := (blocks \<mu>)(?q \<mapsto> ?z), brk := Suc ?q\<rparr>"
  let ?A = "matrix_at \<mu> a"
  let ?E0 = "inverse_fill ?A ?n"
  have sq: "s_cols s = s_rows s" using True by simp
  have ne: "s_data s \<noteq> ?q" using xs fresh by auto
  have A: "?A = \<lparr>rows = ?n, cols = ?n, data = xs\<rparr>" using a xs sq by (simp add: matrix_at_def)
  have A1: "matrix_at ?\<mu>1 a = ?A" using a xs ne by (simp add: matrix_at_def)
  have m1: "?\<mu>1 = on_block ?\<mu>1 ?q (\<lambda>_. ?z)" by (simp add: on_block_id)
  have fill: "inverse_fill_mem ?\<mu>1 a ?q ?n = on_block ?\<mu>1 ?q (\<lambda>_. ?E0)"
  proof -
    have "inverse_fill_mem (on_block ?\<mu>1 ?q (\<lambda>_. ?z)) a ?q ?n =
        on_block ?\<mu>1 ?q (\<lambda>_. inverse_fill (matrix_at ?\<mu>1 a) ?n)"
      by (rule inverse_fill_mem_block [where s = s]) (use a ne in simp_all)
    then show ?thesis using m1 A1 by simp
  qed
  have run: "for_ctl 0 ?n (inverse_step_mem ?q ?n) (on_block ?\<mu>1 ?q (\<lambda>_. ?E0)) =
      map_ctl (\<lambda>ys. on_block ?\<mu>1 ?q (\<lambda>_. ys)) (for_ctl 0 ?n (inverse_step ?n) ?E0)"
    by (rule for_ctl_map [where L = "\<lambda>ys. on_block ?\<mu>1 ?q (\<lambda>_. ys)"]) (rule inverse_step_mem_block)
  have fr: "free (on_block ?\<mu>1 ?q f) ?q = \<mu>\<lparr>brk := Suc ?q\<rparr>" for f
    using fresh by (simp add: free_def on_block_def fun_upd_idem)
  show ?thesis
  proof (cases "for_ctl 0 ?n (inverse_step ?n) ?E0")
    case (Stop E)
    then have "for_ctl 0 ?n (inverse_step_mem ?q ?n) (on_block ?\<mu>1 ?q (\<lambda>_. ?E0)) = Stop (on_block ?\<mu>1 ?q (\<lambda>_. E))"
      using run by simp
    moreover have "matrix_inverse (Some ?A) = (None, [])"
      using Stop by (simp add: matrix_inverse_def A)
    ultimately show ?thesis
      using a by (simp add: matrix_inverse_mem_def sq malloc_def fill fr Let_def)
  next
    case (Next E)
    let ?\<mu>3 = "on_block ?\<mu>1 ?q (\<lambda>_. E)"
    let ?m = "Suc ?q" and ?d = "Suc (Suc ?q)"
    let ?st = "\<lparr>s_rows = ?n, s_cols = ?n, s_data = ?d\<rparr>"
    let ?\<mu>4 = "?\<mu>3\<lparr>structs := (structs ?\<mu>3)(?m \<mapsto> ?st),
               blocks := (blocks ?\<mu>3)(?d \<mapsto> replicate (?n * ?n) 0),
               brk := Suc (Suc (brk ?\<mu>3))\<rparr>"
    have runm: "for_ctl 0 ?n (inverse_step_mem ?q ?n) (on_block ?\<mu>1 ?q (\<lambda>_. ?E0)) = Next ?\<mu>3"
      using run Next by simp
    have cr: "matrix_create_mem ?\<mu>3 ?n ?n = (?m, ?\<mu>4)"
      by (simp add: matrix_create_mem_def on_block_simps Let_def)
    have m4: "?\<mu>4 = on_block ?\<mu>4 ?d (\<lambda>_. replicate (?n * ?n) 0)" by (simp add: on_block_id)
    have "inverse_extract_mem (on_block ?\<mu>4 ?d (\<lambda>_. replicate (?n * ?n) 0)) ?q ?m ?n =
         on_block ?\<mu>4 ?d (\<lambda>_. data (inverse_extract E ?n))"
      by (rule inverse_extract_mem_block) (simp_all add: on_block_simps)
    then have ex: "inverse_extract_mem ?\<mu>4 ?q ?m ?n = on_block ?\<mu>4 ?d (\<lambda>_. data (inverse_extract E ?n))"
      using m4 by simp
    have shape: "rows (inverse_extract E ?n) = ?n" "cols (inverse_extract E ?n) = ?n"
      by (simp_all add: inverse_extract_data)
    have final: "free (on_block ?\<mu>4 ?d (\<lambda>_. data (inverse_extract E ?n))) ?q =
        \<mu>\<lparr>structs := (structs \<mu>)(?m \<mapsto> ?st),
          blocks := (blocks \<mu>)(?d \<mapsto> data (inverse_extract E ?n)),
          brk := Suc (Suc (Suc ?q))\<rparr>"
      using fresh by (simp add: free_def on_block_def fun_eq_iff)
    have mi: "matrix_inverse (Some ?A) = (Some (inverse_extract E ?n), [])"
      using Next by (simp add: matrix_inverse_def A)
    show ?thesis
      using a
      by (simp add: matrix_inverse_mem_def sq malloc_def fill runm cr ex final shape mi Let_def)
  qed
qed

section \<open>The text written and the loops that read it\<close>










section \<open>Permutations, signs and the Leibniz determinant\<close>




























section \<open>The determinant loop computes the Leibniz determinant\<close>





section \<open>Absent arguments\<close>

text \<open>
  Claim C10. The four core operations return at once on a \<^verbatim>\<open>NULL\<close> argument, before
  any field of it is read: \<^verbatim>\<open>matrix_add_sub\<close> and \<^verbatim>\<open>matrix_multiply\<close> return
  \<^verbatim>\<open>NULL\<close> when either input is \<^verbatim>\<open>NULL\<close>, \<^verbatim>\<open>matrix_inverse\<close> returns
  \<^verbatim>\<open>NULL\<close>, and \<^verbatim>\<open>matrix_determinant\<close> returns \<open>0.0\<close>; nothing is printed.
\<close>

theorem null_arguments_tolerated:
  "matrix_add_sub None b subtract = None \<and> matrix_add_sub a None subtract = None \<and>
   matrix_multiply None b = None \<and> matrix_multiply a None = None \<and>
   matrix_inverse None = (None, []) \<and> matrix_determinant None = (0, [])"
  by (simp add: matrix_add_sub_def matrix_multiply_def matrix_inverse_def matrix_determinant_def
      split: option.splits)

theorem null_arguments_tolerated_witness:
  "matrix_add_sub None (Some \<lparr>rows = 1, cols = 1, data = [2]\<rparr>) 0 = None \<and>
   matrix_add_sub (Some \<lparr>rows = 1, cols = 1, data = [2]\<rparr>) None 0 = None \<and>
   matrix_multiply None (Some \<lparr>rows = 1, cols = 1, data = [2]\<rparr>) = None \<and>
   matrix_multiply (Some \<lparr>rows = 1, cols = 1, data = [2]\<rparr>) None = None \<and>
   matrix_inverse None = (None, []) \<and> matrix_determinant None = (0, [])"
  using null_arguments_tolerated [of "Some \<lparr>rows = 1, cols = 1, data = [2]\<rparr>" 0
          "Some \<lparr>rows = 1, cols = 1, data = [2]\<rparr>"]
  by simp

section \<open>Input that is not square\<close>

text \<open>
  Claim C4, as the code has it. For a matrix with \<open>rows \<noteq> cols\<close> the determinant prints
  its diagnostic on \<^verbatim>\<open>stderr\<close> and returns the number \<open>0.0\<close>; the inverse prints its
  diagnostic and returns \<^verbatim>\<open>NULL\<close>. On a square matrix neither routine prints anything,
  so the diagnostic is what tells the two cases apart.
\<close>

theorem not_square_sentinel:
  "(rows a \<noteq> cols a \<longrightarrow>
      matrix_determinant (Some a) = (0, [''Determinant: matrix is not square'']) \<and>
      matrix_inverse (Some a) = (None, [''Inverse: matrix is not square''])) \<and>
   (rows a = cols a \<longrightarrow>
      snd (matrix_determinant (Some a)) = [] \<and> snd (matrix_inverse (Some a)) = [])"
  by (simp add: matrix_determinant_def matrix_inverse_def Let_def split: ctl.splits prod.splits)

theorem not_square_sentinel_witness:
  "rows \<lparr>rows = 1, cols = 2, data = [1, 2]\<rparr> \<noteq> cols \<lparr>rows = 1, cols = 2, data = [1, 2]\<rparr> \<and>
   matrix_determinant (Some \<lparr>rows = 1, cols = 2, data = [1, 2]\<rparr>)
     = (0, [''Determinant: matrix is not square'']) \<and>
   matrix_inverse (Some \<lparr>rows = 1, cols = 2, data = [1, 2]\<rparr>)
     = (None, [''Inverse: matrix is not square'']) \<and>
   rows \<lparr>rows = 1, cols = 1, data = [0]\<rparr> = cols \<lparr>rows = 1, cols = 1, data = [0]\<rparr> \<and>
   snd (matrix_determinant (Some \<lparr>rows = 1, cols = 1, data = [0]\<rparr>)) = [] \<and>
   snd (matrix_inverse (Some \<lparr>rows = 1, cols = 1, data = [0]\<rparr>)) = []"
  using not_square_sentinel [of "\<lparr>rows = 1, cols = 2, data = [1, 2]\<rparr>"]
    not_square_sentinel [of "\<lparr>rows = 1, cols = 1, data = [0]\<rparr>"] by simp

text \<open>
  The number returned by the determinant for an input that is not square is the number
  it returns for the singular square matrix \<open>[[0]]\<close>: the returned value alone does not
  tell the failure from a legitimate result.
\<close>

theorem not_square_indistinguishable:
  "rows \<lparr>rows = 1, cols = 2, data = [1, 2]\<rparr> \<noteq> cols \<lparr>rows = 1, cols = 2, data = [1, 2]\<rparr> \<and>
   rows \<lparr>rows = 1, cols = 1, data = [0]\<rparr> = cols \<lparr>rows = 1, cols = 1, data = [0]\<rparr> \<and>
   fst (matrix_determinant (Some \<lparr>rows = 1, cols = 2, data = [1, 2]\<rparr>))
     = fst (matrix_determinant (Some \<lparr>rows = 1, cols = 1, data = [0]\<rparr>))"
  by (simp add: matrix_determinant_def for_ctl_def det_step_def find_pivot_def for_loop_def EPS_def)

section \<open>Addition and subtraction\<close>



section \<open>The identity matrix\<close>

text \<open>
  Claim C6. For every order \<open>n\<close> the identity matrix has determinant exactly \<open>1.0\<close>,
  and the inverse applied to it succeeds and returns the identity matrix.
\<close>

theorem identity_determinant_and_inverse:
  "matrix_determinant (Some (identity_matrix n)) = (1, []) \<and>
   matrix_inverse (Some (identity_matrix n)) = (Some (identity_matrix n), [])"
proof
  let ?I = "data (identity_matrix n)"
  have "take (n * n) ?I = ?I" using identity_matrix_entries(3) [of n] by simp
  moreover have "for_ctl 0 n (det_step n) (?I, 1, 1) = Next (?I, 1, 1)"
    by (rule for_ctl_fixed) (rule det_step_identity)
  ultimately show "matrix_determinant (Some (identity_matrix n)) = (1, [])"
    by (simp add: matrix_determinant_def identity_matrix_entries(1,2))
next
  let ?E = "inverse_fill (identity_matrix n) n"
  have run: "for_ctl 0 n (inverse_step n) ?E = Next ?E"
    by (rule for_ctl_fixed) (rule inverse_step_identity)
  have "inverse_extract ?E n = identity_matrix n"
  proof (rule Matrix.equality)
    show "rows (inverse_extract ?E n) = rows (identity_matrix n)"
      "cols (inverse_extract ?E n) = cols (identity_matrix n)"
      using inverse_extract_entries [of ?E n] by (simp_all add: identity_matrix_entries)
    show "data (inverse_extract ?E n) = data (identity_matrix n)"
    proof (rule flat_ext [where n = n and w = n])
      show "length (data (inverse_extract ?E n)) = n * n" using inverse_extract_entries [of ?E n] by simp
      show "length (data (identity_matrix n)) = n * n" by (rule identity_matrix_entries(3))
    next
      fix r c assume rc: "r < n" "c < n"
      have "data (inverse_extract ?E n) ! (r * n + c) = ?E ! (r * (2 * n) + (n + c))"
        using inverse_extract_entries [of ?E n] rc by simp
      also have "\<dots> = (if r = c then 1 else 0)"
        using inverse_fill_identity [of r n "n + c"] rc by auto
      finally show "data (inverse_extract ?E n) ! (r * n + c) = data (identity_matrix n) ! (r * n + c)"
        using rc by (simp add: identity_matrix_entries(4))
    qed
  qed simp
  then show "matrix_inverse (Some (identity_matrix n)) = (Some (identity_matrix n), [])"
    using run by (simp add: matrix_inverse_def identity_matrix_entries(1,2))
qed

theorem identity_determinant_and_inverse_witness:
  "matrix_determinant (Some (identity_matrix 3)) = (1, []) \<and>
   matrix_inverse (Some (identity_matrix 3)) = (Some (identity_matrix 3), [])"
  using identity_determinant_and_inverse [of 3] by simp

section \<open>Singular input of the inverse\<close>



section \<open>The determinant\<close>



section \<open>The inverse is a right inverse\<close>




section \<open>The input matrix is left unchanged\<close>

text \<open>
  Claim C9. Let \<open>a\<close> point to a struct \<open>s\<close> whose block of cells holds \<open>xs\<close>, in a memory
  whose addresses from \<open>brk\<close> on are unused. After \<^verbatim>\<open>matrix_determinant\<close> and after
  \<^verbatim>\<open>matrix_inverse\<close>, on every path (not square, singular, success), the struct at \<open>a\<close>
  is still \<open>s\<close> (same rows, cols and data pointer) and its block still holds \<open>xs\<close>: all
  writes go to the working buffer the routine allocates, or to the result it creates.
\<close>

theorem input_matrix_unchanged:
  assumes a: "structs \<mu> a = Some s" and xs: "blocks \<mu> (s_data s) = Some xs"
    and fresh: "\<forall>q \<ge> brk \<mu>. structs \<mu> q = None \<and> blocks \<mu> q = None"
  shows "structs (snd (matrix_determinant_mem \<mu> (Some a))) a = Some s \<and>
         blocks (snd (matrix_determinant_mem \<mu> (Some a))) (s_data s) = Some xs \<and>
         structs (snd (matrix_inverse_mem \<mu> (Some a))) a = Some s \<and>
         blocks (snd (matrix_inverse_mem \<mu> (Some a))) (s_data s) = Some xs"
proof -
  have f0: "blocks \<mu> (brk \<mu>) = None" using fresh by simp
  have lt: "a < brk \<mu>" "s_data s < brk \<mu>"
    using a xs fresh by (metis not_le_imp_less option.distinct(1))+
  have det: "snd (matrix_determinant_mem \<mu> (Some a)) = \<mu> \<or>
             snd (matrix_determinant_mem \<mu> (Some a)) = \<mu>\<lparr>brk := Suc (brk \<mu>)\<rparr>"
    using matrix_determinant_mem_value [OF a xs f0] by simp
  have inv: "structs (snd (matrix_inverse_mem \<mu> (Some a))) a = Some s \<and>
         blocks (snd (matrix_inverse_mem \<mu> (Some a))) (s_data s) = Some xs"
    using matrix_inverse_mem_value [OF a xs f0] a xs lt
    by (auto split: prod.splits option.splits)
  show ?thesis using det inv a xs by auto
qed

theorem input_matrix_unchanged_witness:
  "structs (snd (matrix_determinant_mem
       \<lparr>structs = (\<lambda>_. None)(0 \<mapsto> \<lparr>s_rows = 2, s_cols = 2, s_data = 1\<rparr>),
        blocks = (\<lambda>_. None)(1 \<mapsto> [4, 3, 6, 3]), brk = 2\<rparr> (Some 0))) 0
     = Some \<lparr>s_rows = 2, s_cols = 2, s_data = 1\<rparr> \<and>
   blocks (snd (matrix_determinant_mem
       \<lparr>structs = (\<lambda>_. None)(0 \<mapsto> \<lparr>s_rows = 2, s_cols = 2, s_data = 1\<rparr>),
        blocks = (\<lambda>_. None)(1 \<mapsto> [4, 3, 6, 3]), brk = 2\<rparr> (Some 0))) 1
     = Some [4, 3, 6, 3] \<and>
   structs (snd (matrix_inverse_mem
       \<lparr>structs = (\<lambda>_. None)(0 \<mapsto> \<lparr>s_rows = 2, s_cols = 2, s_data = 1\<rparr>),
        blocks = (\<lambda>_. None)(1 \<mapsto> [4, 3, 6, 3]), brk = 2\<rparr> (Some 0))) 0
     = Some \<lparr>s_rows = 2, s_cols = 2, s_data = 1\<rparr> \<and>
   blocks (snd (matrix_inverse_mem
       \<lparr>structs = (\<lambda>_. None)(0 \<mapsto> \<lparr>s_rows = 2, s_cols = 2, s_data = 1\<rparr>),
        blocks = (\<lambda>_. None)(1 \<mapsto> [4, 3, 6, 3]), brk = 2\<rparr> (Some 0))) 1
     = Some [4, 3, 6, 3]"
proof -
  let ?s = "\<lparr>s_rows = 2, s_cols = 2, s_data = 1\<rparr>"
  let ?m = "\<lparr>structs = (\<lambda>_. None)(0 \<mapsto> ?s), blocks = (\<lambda>_. None)(1 \<mapsto> [4, 3, 6, 3::real]), brk = 2\<rparr>"
  have a: "structs ?m 0 = Some ?s" by simp
  have xs: "blocks ?m (s_data ?s) = Some [4, 3, 6, 3]" by simp
  have fresh: "\<forall>q \<ge> brk ?m. structs ?m q = None \<and> blocks ?m q = None" by simp
  show ?thesis using input_matrix_unchanged [OF a xs fresh] by simp
qed

section \<open>Loading what was saved\<close>




section \<open>The determinant of the transpose\<close>




end
